theory Spec2Isabelle
  imports Main "HOL-Library.Monad_Syntax" "HOL-Library.Sublist"
begin

section \<open>The INI reader of iniConfig.cpp\<close>

text \<open>
  The class \<open>Config\<close> owns one field, \<open>data_\<close>, an
  \<open>unordered_map<string, unordered_map<string, string>>\<close>. It is modelled as a
  record holding a map from section names to buckets, a bucket being a map from keys to
  values. A \<open>std::string\<close> is a \<open>string\<close> (a list of bytes).

  Library calls that can throw are modelled with \<open>option\<close>: \<open>None\<close> stands for
  \<open>std::out_of_range\<close> leaving the function. \<open>std::string::find\<close> returns
  \<open>npos\<close> when nothing is found; that is \<open>None\<close> of \<open>nat option\<close> here.
  Indices of type \<open>size_t\<close> are natural numbers: the one subtraction that could wrap,
  \<open>s.size() - 2\<close>, is reached only with \<open>s.size() \<ge> 2\<close> (lemma \<open>header_inner\<close>).
  A file is the list of its bytes; an error while reading an opened file is not
  modelled.
\<close>

subsection \<open>Data model\<close>

type_synonym bucket = "string \<rightharpoonup> string"
type_synonym store = "string \<rightharpoonup> bucket"

text \<open>The field \<open>data_\<close> is called \<open>data\<close> here: a record field cannot end in
  an underscore. \<open>Config_default\<close> is the object \<open>Config() = default\<close> builds.\<close>

record Config =
  data :: store

definition Config_default :: Config where
  "Config_default = \<lparr>data = Map.empty\<rparr>"

text \<open>What \<open>std::ifstream ifs(path)\<close> gives: the bytes of the file, or \<open>None\<close>
  when the stream cannot be opened.\<close>

type_synonym filesystem = "string \<rightharpoonup> string"

subsection \<open>Library functions used by the parser\<close>

text \<open>\<open>std::isspace\<close> on an \<open>unsigned char\<close> in the "C" locale: space, and the
  five control characters \<open>\t \n \v \f \r\<close>.\<close>

definition isspace :: "char \<Rightarrow> bool" where
  "isspace c \<longleftrightarrow>
     c = CHR 0x20 \<or> c = CHR 0x09 \<or> c = CHR 0x0A \<or> c = CHR 0x0B \<or> c = CHR 0x0C \<or> c = CHR 0x0D"

text \<open>\<open>s.substr(pos, n)\<close> throws when \<open>pos > s.size()\<close>, and otherwise returns at
  most \<open>n\<close> characters from \<open>pos\<close> on. \<open>s.substr(pos)\<close> has \<open>n = npos\<close>: it
  returns everything from \<open>pos\<close> on.\<close>

definition substr :: "string \<Rightarrow> nat \<Rightarrow> nat \<Rightarrow> string option" where
  "substr s pos n = (if pos > length s then None else Some (take n (drop pos s)))"

definition substr_from :: "string \<Rightarrow> nat \<Rightarrow> string option" where
  "substr_from s pos = (if pos > length s then None else Some (drop pos s))"

text \<open>\<open>s.find(c)\<close>: the index of the first \<open>c\<close>, if there is one.\<close>

fun find_char :: "string \<Rightarrow> char \<Rightarrow> nat option" where
  "find_char [] c = None"
| "find_char (x # xs) c = (if x = c then Some 0 else map_option Suc (find_char xs c))"

text \<open>\<open>std::getline(ifs, line)\<close> on the bytes still unread: it fails at the end of the
  input; otherwise it yields the bytes up to the next newline (or up to the end), and
  consumes the newline.\<close>

definition getline :: "string \<Rightarrow> (string \<times> string) option" where
  "getline input =
     (if input = [] then None
      else Some (takeWhile (\<lambda>c. c \<noteq> CHR 0x0A) input,
                 drop 1 (dropWhile (\<lambda>c. c \<noteq> CHR 0x0A) input)))"

subsection \<open>trim\<close>

text \<open>The two loops of \<open>trim\<close>, on the indices \<open>b\<close> and \<open>e\<close>.\<close>

function trim_b :: "string \<Rightarrow> nat \<Rightarrow> nat \<Rightarrow> nat" where
  "trim_b s b e = (if b < e \<and> isspace (s ! b) then trim_b s (Suc b) e else b)"
  by pat_completeness auto
termination
  by (relation "measure (\<lambda>(s, b, e). e - b)") auto

function trim_e :: "string \<Rightarrow> nat \<Rightarrow> nat \<Rightarrow> nat" where
  "trim_e s b e = (if e > b \<and> isspace (s ! (e - 1)) then trim_e s b (e - 1) else e)"
  by pat_completeness auto
termination
  by (relation "measure (\<lambda>(s, b, e). e - b)") auto

definition trim :: "string \<Rightarrow> string option" where
  "trim s =
     (let b = trim_b s 0 (length s);
          e = trim_e s b (length s)
      in substr s b (e - b))"

subsection \<open>Config::loadFromFile\<close>

text \<open>\<open>data_[current_section][key] = val\<close>: the outer \<open>operator[]\<close> creates an
  empty bucket when the section has none, the inner one creates or overwrites the key.\<close>

definition store_kv :: "store \<Rightarrow> string \<Rightarrow> string \<Rightarrow> string \<Rightarrow> store" where
  "store_kv d section key val =
     d(section \<mapsto> (case d section of None \<Rightarrow> Map.empty | Some b \<Rightarrow> b)(key \<mapsto> val))"

text \<open>The loop over \<open>{';', '#'}\<close> that finds the earliest comment character:
  one round of it, and the two rounds from \<open>cpos = npos\<close>.\<close>

definition cpos_step :: "string \<Rightarrow> nat option \<Rightarrow> char \<Rightarrow> nat option" where
  "cpos_step val cpos c =
     (case find_char val c of
        None \<Rightarrow> cpos
      | Some p \<Rightarrow> (case cpos of None \<Rightarrow> Some p | Some q \<Rightarrow> Some (min q p)))"

definition comment_pos :: "string \<Rightarrow> nat option" where
  "comment_pos val = foldl (cpos_step val) None [CHR '';'', CHR ''#'']"

text \<open>The body of the \<open>while\<close> loop. The loop state is \<open>current_section\<close> and
  \<open>data_\<close>; every \<open>continue\<close> returns the state it has reached. \<open>s[0]\<close> is
  \<open>s ! 0\<close>, \<open>s.front()\<close> is \<open>hd s\<close> and \<open>s.back()\<close> is \<open>last s\<close>, all read
  after the test that \<open>s\<close> is not empty. (The counter \<open>lineno\<close> is written and
  never read; it is left out.)\<close>

definition process_line :: "string \<times> store \<Rightarrow> string \<Rightarrow> (string \<times> store) option" where
  "process_line st line =
     (case st of (current_section, d) \<Rightarrow>
        do {
          s \<leftarrow> trim line;
          if s = [] then Some (current_section, d)
          else if s ! 0 = CHR '';'' \<or> s ! 0 = CHR ''#'' then Some (current_section, d)
          else if hd s = CHR ''['' \<and> last s = CHR '']'' then
            do {
              inner \<leftarrow> substr s 1 (length s - 2);
              name \<leftarrow> trim inner;
              Some (name, d)
            }
          else
            (case find_char s CHR ''='' of
               None \<Rightarrow> Some (current_section, d)
             | Some eq \<Rightarrow>
                 do {
                   k \<leftarrow> substr s 0 eq;
                   key \<leftarrow> trim k;
                   v \<leftarrow> substr_from s (eq + 1);
                   val \<leftarrow> trim v;
                   val' \<leftarrow> (case comment_pos val of
                              None \<Rightarrow> Some val
                            | Some cpos \<Rightarrow> do { t \<leftarrow> substr val 0 cpos; trim t });
                   Some (current_section, store_kv d current_section key val')
                 })
        })"

text \<open>\<open>while (std::getline(ifs, line)) { ... }\<close> on the unread bytes.\<close>

function read_loop :: "string \<Rightarrow> string \<times> store \<Rightarrow> (string \<times> store) option" where
  "read_loop input st =
     (case getline input of
        None \<Rightarrow> Some st
      | Some (line, rest) \<Rightarrow>
          (case process_line st line of
             None \<Rightarrow> None
           | Some st' \<Rightarrow> read_loop rest st'))"
  by pat_completeness auto
termination
proof (relation "measure (\<lambda>(input, st). length input)")
  show "wf (measure (\<lambda>(input, st). length input))" by simp
next
  fix input :: string and st :: "string \<times> store" and x2 x y st'
  assume "getline input = Some x2" and "(x, y) = x2"
  then have "input \<noteq> []" and "y = drop 1 (dropWhile (\<lambda>c. c \<noteq> CHR 0x0A) input)"
    by (auto simp: getline_def split: if_splits)
  moreover have "length (dropWhile (\<lambda>c. c \<noteq> CHR 0x0A) input) \<le> length input"
    by (rule length_dropWhile_le)
  ultimately show "((y, st'), (input, st)) \<in> measure (\<lambda>(input, st). length input)"
    by (cases input) auto
qed

text \<open>\<open>loadFromFile(path, err)\<close> returns its \<open>bool\<close>, the object and the output
  parameter \<open>err\<close>.\<close>

definition loadFromFile ::
  "filesystem \<Rightarrow> string \<Rightarrow> Config \<Rightarrow> string \<Rightarrow> (bool \<times> Config \<times> string) option" where
  "loadFromFile fs path cfg err =
     (let cfg1 = cfg\<lparr>data := Map.empty\<rparr> in
      case fs path of
        None \<Rightarrow> Some (False, cfg1, ''Could not open config file: '' @ path)
      | Some content \<Rightarrow>
          (case read_loop content ([], data cfg1) of
             None \<Rightarrow> None
           | Some (current_section, d) \<Rightarrow> Some (True, cfg1\<lparr>data := d\<rparr>, err)))"

subsection \<open>Config::get\<close>

definition get :: "Config \<Rightarrow> string \<Rightarrow> string \<Rightarrow> string \<Rightarrow> string" where
  "get cfg section key default_val =
     (case data cfg section of
        None \<Rightarrow> default_val
      | Some b \<Rightarrow> (case b key of None \<Rightarrow> default_val | Some v \<Rightarrow> v))"

text \<open>What the map holds for a section and a key: the two \<open>find\<close> calls of
  \<open>get\<close>, without the default.\<close>

definition stored :: "store \<Rightarrow> string \<Rightarrow> string \<Rightarrow> string option" where
  "stored d section key = (case d section of None \<Rightarrow> None | Some b \<Rightarrow> b key)"

text \<open>A load followed by one lookup, the way every test of the repository uses the
  class: the \<open>bool\<close> that \<open>loadFromFile\<close> returned and the string that
  \<open>get\<close> returned.\<close>

definition load_get ::
  "filesystem \<Rightarrow> string \<Rightarrow> Config \<Rightarrow> string \<Rightarrow> string \<Rightarrow> string \<Rightarrow> string \<Rightarrow> (bool \<times> string) option" where
  "load_get fs path cfg err section key default_val =
     (case loadFromFile fs path cfg err of
        None \<Rightarrow> None
      | Some (ok, cfg', err') \<Rightarrow> Some (ok, get cfg' section key default_val))"

section \<open>The specification's reading of a file\<close>

text \<open>
  The definitions of this section follow the words of the specification (section 4.1),
  not the code: trimming removes the whitespace at both ends; a line is blank, a comment,
  a section header, malformed or a key/value line; a header sets the current section and
  a key/value line is stored under it.
\<close>

definition spec_trim :: "string \<Rightarrow> string" where
  "spec_trim s = rev (dropWhile isspace (rev (dropWhile isspace s)))"

definition spec_key :: "string \<Rightarrow> string" where
  "spec_key s = spec_trim (takeWhile (\<lambda>c. c \<noteq> CHR ''='') s)"

definition spec_value :: "string \<Rightarrow> string" where
  "spec_value s =
     (let v = spec_trim (drop 1 (dropWhile (\<lambda>c. c \<noteq> CHR ''='') s))
      in if CHR '';'' \<in> set v \<or> CHR ''#'' \<in> set v
         then spec_trim (takeWhile (\<lambda>c. c \<noteq> CHR '';'' \<and> c \<noteq> CHR ''#'') v)
         else v)"

datatype line_class = Blank | Comment | Header string | Malformed | KeyValue string string

definition spec_classify :: "string \<Rightarrow> line_class" where
  "spec_classify line =
     (let s = spec_trim line in
      if s = [] then Blank
      else if hd s = CHR '';'' \<or> hd s = CHR ''#'' then Comment
      else if hd s = CHR ''['' \<and> last s = CHR '']'' then Header (spec_trim (butlast (tl s)))
      else if CHR ''='' \<notin> set s then Malformed
      else KeyValue (spec_key s) (spec_value s))"

definition spec_apply :: "string \<times> store \<Rightarrow> line_class \<Rightarrow> string \<times> store" where
  "spec_apply st c =
     (case c of
        Header name \<Rightarrow> (name, snd st)
      | KeyValue k v \<Rightarrow> (fst st, store_kv (snd st) (fst st) k v)
      | _ \<Rightarrow> st)"

text \<open>The lines of a file, in order: what successive calls of \<open>getline\<close> yield.\<close>

function lines_of :: "string \<Rightarrow> string list" where
  "lines_of input =
     (case getline input of
        None \<Rightarrow> []
      | Some (line, rest) \<Rightarrow> line # lines_of rest)"
  by pat_completeness auto
termination
proof (relation "measure length")
  fix input :: string and x2 line rest
  assume "getline input = Some x2" and "(line, rest) = x2"
  then have ne: "input \<noteq> []"
    and rest: "rest = drop 1 (dropWhile (\<lambda>c. c \<noteq> CHR 0x0A) input)"
    by (auto simp: getline_def split: if_splits)
  have "length rest \<le> length (dropWhile (\<lambda>c. c \<noteq> CHR 0x0A) input) - 1"
    by (simp add: rest)
  also have "\<dots> < length input"
    using ne length_dropWhile_le [of "\<lambda>c. c \<noteq> CHR 0x0A" input]
    by (cases input) auto
  finally show "(rest, input) \<in> measure length" by simp
qed simp

text \<open>The key/value lines of a file as the stores they ask for, in order: each with the
  section that the last header before it named (\<open>cur\<close> when there is none).\<close>

fun assignments :: "string \<Rightarrow> string list \<Rightarrow> (string \<times> string \<times> string) list" where
  "assignments cur [] = []"
| "assignments cur (l # ls) =
     (case spec_classify l of
        Header name \<Rightarrow> assignments name ls
      | KeyValue k v \<Rightarrow> (cur, k, v) # assignments cur ls
      | _ \<Rightarrow> assignments cur ls)"

text \<open>Reading the lines of a file one after the other, from a current section and a
  store; and carrying out a list of stores.\<close>

definition spec_run :: "string \<times> store \<Rightarrow> string list \<Rightarrow> string \<times> store" where
  "spec_run st ls = foldl (\<lambda>st l. spec_apply st (spec_classify l)) st ls"

definition store_all :: "store \<Rightarrow> (string \<times> string \<times> string) list \<Rightarrow> store" where
  "store_all d ws = foldl (\<lambda>d (s, k, v). store_kv d s k v) d ws"

section \<open>The code against the specification's reading\<close>

subsection \<open>trim removes the whitespace at both ends\<close>

declare trim_b.simps [simp del] trim_e.simps [simp del]

lemma trim_b_takeWhile:
  "b \<le> e \<Longrightarrow> e \<le> length s \<Longrightarrow>
   trim_b s b e = b + length (takeWhile isspace (take (e - b) (drop b s)))"
proof (induction s b e rule: trim_b.induct)
  case (1 s b e)
  show ?case
  proof (cases "b < e \<and> isspace (s ! b)")
    case True
    then have lt: "b < length s" using "1.prems" by simp
    have split: "take (e - b) (drop b s) = s ! b # take (e - Suc b) (drop (Suc b) s)"
      using True lt by (simp add: Cons_nth_drop_Suc [symmetric] take_Suc_Cons [symmetric] Suc_diff_Suc del: take_Suc_Cons)
    have "trim_b s b e = trim_b s (Suc b) e"
      by (simp only: trim_b.simps [of s b e] if_P [OF True])
    also have "\<dots> = Suc b + length (takeWhile isspace (take (e - Suc b) (drop (Suc b) s)))"
      using "1.IH" True "1.prems" by simp
    finally show ?thesis using True by (simp add: split)
  next
    case False
    have "trim_b s b e = b"
      by (simp only: trim_b.simps [of s b e] if_not_P [OF False])
    moreover have "takeWhile isspace (take (e - b) (drop b s)) = []"
    proof (cases "b < e")
      case True
      then have "\<not> isspace (s ! b)" using False by simp
      moreover have "take (e - b) (drop b s) = s ! b # take (e - Suc b) (drop (Suc b) s)"
        using True "1.prems" by (simp add: Cons_nth_drop_Suc [symmetric] take_Suc_Cons [symmetric] Suc_diff_Suc del: take_Suc_Cons)
      ultimately show ?thesis by simp
    next
      case False
      then show ?thesis by simp
    qed
    ultimately show ?thesis by simp
  qed
qed

lemma trim_e_takeWhile:
  "b \<le> e \<Longrightarrow> e \<le> length s \<Longrightarrow>
   trim_e s b e = e - length (takeWhile isspace (rev (take (e - b) (drop b s))))"
proof (induction s b e rule: trim_e.induct)
  case (1 s b e)
  have split: "take (e - b) (drop b s) = take (e - 1 - b) (drop b s) @ [s ! (e - 1)]" if "b < e"
  proof -
    have "e - b = Suc (e - 1 - b)" using that by simp
    moreover have "e - 1 - b < length (drop b s)" using that "1.prems" by simp
    moreover have "drop b s ! (e - 1 - b) = s ! (e - 1)" using that "1.prems" by simp
    ultimately show ?thesis by (simp add: take_Suc_conv_app_nth)
  qed
  show ?case
  proof (cases "e > b \<and> isspace (s ! (e - 1))")
    case True
    have "trim_e s b e = trim_e s b (e - 1)"
      by (simp only: trim_e.simps [of s b e] if_P [OF True])
    also have "\<dots> = e - 1 - length (takeWhile isspace (rev (take (e - 1 - b) (drop b s))))"
    proof (rule "1.IH")
      show "b < e \<and> isspace (s ! (e - 1))" by (rule True)
      show "b \<le> e - 1" using True by linarith
      show "e - 1 \<le> length s" using "1.prems" by simp
    qed
    finally show ?thesis using True by (simp add: split)
  next
    case False
    have "trim_e s b e = e"
      by (simp only: trim_e.simps [of s b e] if_not_P [OF False])
    moreover have "takeWhile isspace (rev (take (e - b) (drop b s))) = []"
    proof (cases "b < e")
      case True
      then show ?thesis using False by (simp add: split)
    next
      case False
      then show ?thesis by simp
    qed
    ultimately show ?thesis by simp
  qed
qed

lemma trim_spec_trim: "trim s = Some (spec_trim s)"
proof -
  define b where "b = length (takeWhile isspace s)"
  define t where "t = dropWhile isspace s"
  define n where "n = length (takeWhile isspace (rev t))"
  have b_le: "b \<le> length s" unfolding b_def by (rule length_takeWhile_le)
  have t_drop: "t = drop b s" unfolding t_def b_def by (rule dropWhile_eq_drop)
  have len: "length s = b + length t" using b_le by (simp add: t_drop)
  have n_le: "n \<le> length t" unfolding n_def
    using length_takeWhile_le [of isspace "rev t"] by simp
  have tb: "trim_b s 0 (length s) = b"
    using trim_b_takeWhile [of 0 "length s" s] by (simp add: b_def)
  have te: "trim_e s b (length s) = length s - n"
    using trim_e_takeWhile [of b "length s" s] b_le by (simp add: n_def t_drop)
  have "spec_trim s = rev (drop n (rev t))"
    unfolding spec_trim_def n_def t_def by (simp add: dropWhile_eq_drop)
  also have "\<dots> = take (length t - n) t" by (simp add: rev_drop)
  finally have spec: "spec_trim s = take (length t - n) t" .
  have "length s - n - b = length t - n" using len by simp
  then show ?thesis
    using b_le by (simp add: trim_def tb te substr_def spec t_drop)
qed

lemma find_char_takeWhile:
  "find_char s c = (if c \<in> set s then Some (length (takeWhile (\<lambda>x. x \<noteq> c) s)) else None)"
  by (induction s) auto

lemma length_takeWhile_two:
  "length (takeWhile (\<lambda>x. x \<noteq> a \<and> x \<noteq> b) v) =
   min (length (takeWhile (\<lambda>x. x \<noteq> a) v)) (length (takeWhile (\<lambda>x. x \<noteq> b) v))"
  by (induction v) auto

lemma length_takeWhile_present: "c \<in> set v \<Longrightarrow> length (takeWhile (\<lambda>x. x \<noteq> c) v) < length v"
  by (induction v) auto

lemma length_takeWhile_absent: "c \<notin> set v \<Longrightarrow> length (takeWhile (\<lambda>x. x \<noteq> c) v) = length v"
  by (induction v) auto

lemma comment_pos_takeWhile:
  "comment_pos v =
     (if CHR '';'' \<in> set v \<or> CHR ''#'' \<in> set v
      then Some (length (takeWhile (\<lambda>c. c \<noteq> CHR '';'' \<and> c \<noteq> CHR ''#'') v))
      else None)"
  using length_takeWhile_le [of "\<lambda>x. x \<noteq> CHR '';''" v]
        length_takeWhile_le [of "\<lambda>x. x \<noteq> CHR ''#''" v]
  by (simp add: comment_pos_def cpos_step_def find_char_takeWhile length_takeWhile_two
                length_takeWhile_absent min_def)

lemma header_inner:
  assumes "s \<noteq> []" "hd s = CHR ''[''" "last s = CHR '']''"
  shows "2 \<le> length s" and "substr s 1 (length s - 2) = Some (butlast (tl s))"
proof -
  show two: "2 \<le> length s"
  proof (cases s)
    case Nil
    then show ?thesis using assms by simp
  next
    case (Cons a as)
    then show ?thesis using assms by (cases as) auto
  qed
  have "butlast (tl s) = take (length s - 2) (drop 1 s)"
    by (simp add: butlast_conv_take drop_Suc numeral_2_eq_2)
  then show "substr s 1 (length s - 2) = Some (butlast (tl s))"
    using two assms(1) by (simp add: substr_def)
qed

lemma strip_comment:
  "(case comment_pos v of None \<Rightarrow> Some v
    | Some cpos \<Rightarrow> do { t \<leftarrow> substr v 0 cpos; trim t }) =
   Some (if CHR '';'' \<in> set v \<or> CHR ''#'' \<in> set v
         then spec_trim (takeWhile (\<lambda>c. c \<noteq> CHR '';'' \<and> c \<noteq> CHR ''#'') v)
         else v)"
  by (simp add: comment_pos_takeWhile substr_def trim_spec_trim takeWhile_eq_take [symmetric])

lemma process_line_spec: "process_line st line = Some (spec_apply st (spec_classify line))"
proof -
  obtain cur d where st: "st = (cur, d)" by (cases st)
  define s where "s = spec_trim line"
  show ?thesis
  proof (cases "s = []")
    case True
    then show ?thesis
      by (simp add: process_line_def st trim_spec_trim spec_classify_def spec_apply_def s_def)
  next
    case ne: False
    then have s0: "s ! 0 = hd s" by (simp add: hd_conv_nth)
    show ?thesis
    proof (cases "hd s = CHR '';'' \<or> hd s = CHR ''#''")
      case True
      then show ?thesis using ne s0
        by (simp add: process_line_def st trim_spec_trim spec_classify_def spec_apply_def
                      s_def [symmetric])
    next
      case nc: False
      show ?thesis
      proof (cases "hd s = CHR ''['' \<and> last s = CHR '']''")
        case True
        then show ?thesis using ne s0 nc header_inner(2) [of s]
          by (simp add: process_line_def st trim_spec_trim spec_classify_def spec_apply_def
                        s_def [symmetric])
      next
        case nh: False
        show ?thesis
        proof (cases "CHR ''='' \<in> set s")
          case False
          then show ?thesis using ne s0 nc nh
            by (auto simp: process_line_def st trim_spec_trim spec_classify_def spec_apply_def
                          s_def [symmetric] find_char_takeWhile)
        next
          case True
          define eq where "eq = length (takeWhile (\<lambda>c. c \<noteq> CHR ''='') s)"
          have fc: "find_char s CHR ''='' = Some eq"
            using True by (simp add: find_char_takeWhile eq_def)
          have "eq < length s"
            using True unfolding eq_def by (simp add: length_takeWhile_present)
          then have k: "substr s 0 eq = Some (takeWhile (\<lambda>c. c \<noteq> CHR ''='') s)"
            and v: "substr_from s (Suc eq) = Some (drop 1 (dropWhile (\<lambda>c. c \<noteq> CHR ''='') s))"
            by (simp_all add: substr_def substr_from_def eq_def takeWhile_eq_take [symmetric]
                              dropWhile_eq_drop)
          have "process_line st line =
                  Some (cur, store_kv d cur (spec_key s) (spec_value s))"
            using ne s0 nc nh
            by (auto simp: process_line_def st trim_spec_trim s_def [symmetric] fc k v
                          strip_comment spec_key_def spec_value_def Let_def)
          moreover have "spec_classify line = KeyValue (spec_key s) (spec_value s)"
            using ne nc nh True by (auto simp: spec_classify_def s_def [symmetric])
          ultimately show ?thesis by (simp add: spec_apply_def st)
        qed
      qed
    qed
  qed
qed


subsection \<open>The loop reads the lines in order\<close>

declare read_loop.simps [simp del] lines_of.simps [simp del]

lemma spec_run_simps [simp]:
  "spec_run st [] = st"
  "spec_run st (l # ls) = spec_run (spec_apply st (spec_classify l)) ls"
  "spec_run st (xs @ ys) = spec_run (spec_run st xs) ys"
  by (simp_all add: spec_run_def)

lemma store_all_simps [simp]:
  "store_all d [] = d"
  "store_all d ((s, k, v) # ws) = store_all (store_kv d s k v) ws"
  "store_all d (xs @ ys) = store_all (store_all d xs) ys"
  by (simp_all add: store_all_def)

lemma read_loop_spec: "read_loop input st = Some (spec_run st (lines_of input))"
proof (induction input st rule: read_loop.induct)
  case (1 input st)
  show ?case
  proof (cases "getline input")
    case None
    then show ?thesis
      by (simp add: read_loop.simps [of input st] lines_of.simps [of input])
  next
    case (Some p)
    obtain line rest where p: "p = (line, rest)" by (cases p)
    have "read_loop rest (spec_apply st (spec_classify line)) =
          Some (spec_run (spec_apply st (spec_classify line)) (lines_of rest))"
      using Some p by (intro "1.IH") (simp_all add: process_line_spec)
    then show ?thesis
      using Some p
      by (simp add: read_loop.simps [of input st] lines_of.simps [of input] process_line_spec)
  qed
qed

lemma loadFromFile_spec:
  "loadFromFile fs path cfg err =
     (case fs path of
        None \<Rightarrow> Some (False, cfg\<lparr>data := Map.empty\<rparr>, ''Could not open config file: '' @ path)
      | Some content \<Rightarrow>
          Some (True, cfg\<lparr>data := snd (spec_run ([], Map.empty) (lines_of content))\<rparr>, err))"
  by (simp add: loadFromFile_def read_loop_spec split: option.splits prod.splits)

lemma snd_spec_run: "snd (spec_run (cur, d) ls) = store_all d (assignments cur ls)"
proof (induction ls arbitrary: cur d)
  case Nil
  show ?case by simp
next
  case (Cons l ls)
  show ?case
    by (cases "spec_classify l") (simp_all add: spec_apply_def Cons.IH)
qed

lemma get_store_kv:
  "get (cfg\<lparr>data := store_kv d s k v\<rparr>) s' k' x =
     (if s' = s \<and> k' = k then v else get (cfg\<lparr>data := d\<rparr>) s' k' x)"
  by (simp add: get_def store_kv_def split: option.splits)

lemma assignments_append:
  "assignments cur (xs @ ys) = assignments cur xs @ assignments (fst (spec_run (cur, d) xs)) ys"
proof (induction xs arbitrary: cur d)
  case Nil
  show ?case by simp
next
  case (Cons l ls)
  show ?case
  proof (cases "spec_classify l")
    case (KeyValue k v)
    then show ?thesis
      using Cons.IH [of cur "store_kv d cur k v"] by (simp add: spec_apply_def)
  qed (use Cons.IH in \<open>simp_all add: spec_apply_def\<close>)
qed

lemma no_header_section:
  "\<forall>l \<in> set ls. \<forall>name. spec_classify l \<noteq> Header name \<Longrightarrow> fst (spec_run (cur, d) ls) = cur"
proof (induction ls arbitrary: d)
  case Nil
  show ?case by simp
next
  case (Cons l ls)
  then show ?case by (cases "spec_classify l") (simp_all add: spec_apply_def)
qed


subsection \<open>What a load leaves in the map\<close>

lemma get_stored:
  "get cfg sec key x = (case stored (data cfg) sec key of None \<Rightarrow> x | Some v \<Rightarrow> v)"
  by (simp add: get_def stored_def split: option.splits)

lemma stored_store_kv:
  "stored (store_kv d s k v) s' k' = (if s' = s \<and> k' = k then Some v else stored d s' k')"
  by (simp add: stored_def store_kv_def split: option.splits)

lemma stored_store_all_miss:
  "\<forall>(s, k', v) \<in> set ws. \<not> (s = sec \<and> k' = k) \<Longrightarrow>
   stored (store_all d ws) sec k = stored d sec k"
proof (induction ws arbitrary: d)
  case Nil
  show ?case by simp
next
  case (Cons w ws)
  obtain s k' v where w: "w = (s, k', v)" by (cases w)
  have "stored (store_all (store_kv d s k' v) ws) sec k = stored (store_kv d s k' v) sec k"
    using Cons.prems by (intro Cons.IH) simp
  then show ?case using Cons.prems by (auto simp: w stored_store_kv)
qed

lemma stored_store_all_last:
  assumes "\<forall>(s, k', v') \<in> set post. \<not> (s = sec \<and> k' = k)"
  shows "stored (store_all d (pre @ [(sec, k, v)] @ post)) sec k = Some v"
  using assms by (simp add: stored_store_all_miss stored_store_kv)

lemma load_readable:
  assumes "fs path = Some content"
  shows "loadFromFile fs path cfg err =
           Some (True, cfg\<lparr>data := store_all Map.empty (assignments [] (lines_of content))\<rparr>, err)"
  using assms snd_spec_run [of "[]" Map.empty "lines_of content"]
  by (simp add: loadFromFile_spec)

lemma get_after_load:
  assumes "fs path = Some content"
    and "assignments [] (lines_of content) = pre @ [(sec, key, v)] @ post"
    and "\<forall>(s, k, v') \<in> set post. \<not> (s = sec \<and> k = key)"
  shows "\<exists>cfg'. loadFromFile fs path cfg err = Some (True, cfg', err) \<and>
           get cfg' sec key dflt = v"
proof -
  have "stored (store_all Map.empty (assignments [] (lines_of content))) sec key = Some v"
    unfolding assms(2) using assms(3) by (rule stored_store_all_last)
  then show ?thesis
    using assms(1) load_readable [of fs path content cfg err] by (simp add: get_stored)
qed

lemma assignments_in_section:
  assumes "\<forall>m \<in> set mid. \<forall>n. spec_classify m \<noteq> Header n"
    and "spec_classify l = KeyValue k v"
  shows "assignments cur (mid @ [l] @ post) =
           assignments cur mid @ [(cur, k, v)] @ assignments cur post"
proof -
  have "fst (spec_run (cur, Map.empty) mid) = cur"
    using assms(1) by (rule no_header_section)
  then show ?thesis
    using assignments_append [of cur mid "[l] @ post" Map.empty] assms(2) by simp
qed

lemma assignments_after_header:
  assumes "spec_classify hdr = Header name"
  shows "assignments cur (pre @ [hdr] @ rest) = assignments cur pre @ assignments name rest"
  using assignments_append [of cur pre "[hdr] @ rest" Map.empty] assms by simp

lemma assignments_without_malformed:
  "assignments cur (filter (\<lambda>l. spec_classify l \<noteq> Malformed) ls) = assignments cur ls"
proof (induction ls arbitrary: cur)
  case Nil
  show ?case by simp
next
  case (Cons l ls)
  show ?case by (cases "spec_classify l") (simp_all add: Cons.IH)
qed

section \<open>The claims\<close>

text \<open>The definitions that a concrete input is evaluated with.\<close>

lemmas line_defs = spec_classify_def spec_trim_def spec_key_def spec_value_def spec_apply_def
  isspace_def

lemmas eval_defs = line_defs getline_def lines_of.simps load_get_def loadFromFile_spec Config_default_def

text \<open>
  C1. A line that the loop treats as \<open>key=value\<close> (trimmed it is not empty, does not
  start with \<open>;\<close> or \<open>#\<close>, is not a bracketed header, and contains \<open>=\<close>) is
  stored in the current section under the trimmed text before the first \<open>=\<close>, with
  the trimmed text after the first \<open>=\<close> (further \<open>=\<close> kept), cut at the earliest
  \<open>;\<close> or \<open>#\<close> and trimmed again; the current section does not change. A file
  holding the one line \<open>x=y=z\<close> makes \<open>get("", "x")\<close> return \<open>y=z\<close>.
\<close>

theorem key_value_line:
  assumes "s = spec_trim line" and "s \<noteq> []"
    and "hd s \<noteq> CHR '';''" and "hd s \<noteq> CHR ''#''"
    and "\<not> (hd s = CHR ''['' \<and> last s = CHR '']'')"
    and "CHR ''='' \<in> set s"
  shows "process_line (cur, d) line = Some (cur, store_kv d cur (spec_key s) (spec_value s)) \<and>
         get (cfg\<lparr>data := store_kv d cur (spec_key s) (spec_value s)\<rparr>) cur (spec_key s) dflt
           = spec_value s \<and>
         load_get [''f'' \<mapsto> ''x=y=z''] ''f'' Config_default [] [] ''x'' dflt = Some (True, ''y=z'')"
proof -
  have "spec_classify line = KeyValue (spec_key s) (spec_value s)"
    using assms by (auto simp: spec_classify_def Let_def)
  then have "process_line (cur, d) line = Some (cur, store_kv d cur (spec_key s) (spec_value s))"
    by (simp add: process_line_spec spec_apply_def)
  moreover have "load_get [''f'' \<mapsto> ''x=y=z''] ''f'' Config_default [] [] ''x'' dflt
                   = Some (True, ''y=z'')"
    by (simp add: eval_defs store_kv_def get_def)
  ultimately show ?thesis by (simp add: get_store_kv)
qed

theorem key_value_line_witness:
  "spec_trim '' k = a ; b=c '' = ''k = a ; b=c'' \<and>
   process_line (''s'', Map.empty) '' k = a ; b=c '' =
     Some (''s'', store_kv Map.empty ''s'' ''k'' ''a'') \<and>
   get \<lparr>data = store_kv Map.empty ''s'' ''k'' ''a''\<rparr> ''s'' ''k'' ''d'' = ''a''"
  using key_value_line [of "''k = a ; b=c''" "'' k = a ; b=c ''" "''s''" Map.empty Config_default "''d''"]
  by (simp add: eval_defs)

text \<open>
  C2. A trimmed line that starts with \<open>[\<close> and ends with \<open>]\<close> sets the current
  section to the trimmed text between the brackets and leaves the store alone. The
  section holds for the key/value lines that follow, up to the next header or the end of
  the file: a key/value line \<open>l\<close> after the header, with no header in between, is
  stored under that section (and read back from it unless a later line stores the same
  section and key again). Before the first header the current section is the empty
  string. The file \<open>a=1\n[s]\nb = 2 ; note\n\<close> gives \<open>get("", "a") = "1"\<close> and
  \<open>get("s", "b") = "2"\<close>.
\<close>

theorem header_sets_section:
  assumes "s = spec_trim hdr" and "s \<noteq> []" and "hd s = CHR ''[''" and "last s = CHR '']''"
    and "name = spec_trim (butlast (tl s))"
  shows "process_line (cur, d) hdr = Some (name, d) \<and>
         (fs path = Some content \<and> lines_of content = pre @ [hdr] @ mid @ [l] @ post \<and>
          (\<forall>m \<in> set mid. \<forall>n. spec_classify m \<noteq> Header n) \<and>
          spec_classify l = KeyValue k v \<and>
          (\<forall>(s', k', v') \<in> set (assignments name post). \<not> (s' = name \<and> k' = k))
          \<longrightarrow> (\<exists>cfg'. loadFromFile fs path cfg err = Some (True, cfg', err) \<and>
                       get cfg' name k dflt = v)) \<and>
         (fs path = Some content \<and> lines_of content = mid @ [l] @ post \<and>
          (\<forall>m \<in> set mid. \<forall>n. spec_classify m \<noteq> Header n) \<and>
          spec_classify l = KeyValue k v \<and>
          (\<forall>(s', k', v') \<in> set (assignments [] post). \<not> (s' = [] \<and> k' = k))
          \<longrightarrow> (\<exists>cfg'. loadFromFile fs path cfg err = Some (True, cfg', err) \<and>
                       get cfg' [] k dflt = v)) \<and>
         load_get [''f'' \<mapsto> ''a=1\<newline>[s]\<newline>b = 2 ; note\<newline>''] ''f'' Config_default []
           [] ''a'' dflt = Some (True, ''1'') \<and>
         load_get [''f'' \<mapsto> ''a=1\<newline>[s]\<newline>b = 2 ; note\<newline>''] ''f'' Config_default []
           ''s'' ''b'' dflt = Some (True, ''2'')"
proof -
  have hdr: "spec_classify hdr = Header name"
    using assms by (simp add: spec_classify_def)
  then have body: "process_line (cur, d) hdr = Some (name, d)"
    by (simp add: process_line_spec spec_apply_def)
  have under: "\<exists>cfg'. loadFromFile fs path cfg err = Some (True, cfg', err) \<and>
                 get cfg' name k dflt = v"
    if "fs path = Some content" and "lines_of content = pre @ [hdr] @ mid @ [l] @ post"
      and "\<forall>m \<in> set mid. \<forall>n. spec_classify m \<noteq> Header n"
      and "spec_classify l = KeyValue k v"
      and "\<forall>(s', k', v') \<in> set (assignments name post). \<not> (s' = name \<and> k' = k)"
  proof -
    have "assignments [] (lines_of content) =
            (assignments [] pre @ assignments name mid) @ [(name, k, v)] @ assignments name post"
      using assignments_after_header [OF hdr, of "[]" pre "mid @ [l] @ post"]
            assignments_in_section [OF that(3) that(4), of name post]
      by (simp add: that(2))
    with that(1) show ?thesis using that(5) by (rule get_after_load)
  qed
  have top: "\<exists>cfg'. loadFromFile fs path cfg err = Some (True, cfg', err) \<and>
                 get cfg' [] k dflt = v"
    if "fs path = Some content" and "lines_of content = mid @ [l] @ post"
      and "\<forall>m \<in> set mid. \<forall>n. spec_classify m \<noteq> Header n"
      and "spec_classify l = KeyValue k v"
      and "\<forall>(s', k', v') \<in> set (assignments [] post). \<not> (s' = [] \<and> k' = k)"
  proof -
    have "assignments [] (lines_of content) =
            assignments [] mid @ [([], k, v)] @ assignments [] post"
      using assignments_in_section [OF that(3) that(4), of "[]" post] by (simp add: that(2))
    with that(1) show ?thesis using that(5) by (rule get_after_load)
  qed
  have ex1: "load_get [''f'' \<mapsto> ''a=1\<newline>[s]\<newline>b = 2 ; note\<newline>''] ''f'' Config_default []
           [] ''a'' dflt = Some (True, ''1'')"
    by (simp add: eval_defs store_kv_def get_def)
  have ex2: "load_get [''f'' \<mapsto> ''a=1\<newline>[s]\<newline>b = 2 ; note\<newline>''] ''f'' Config_default []
           ''s'' ''b'' dflt = Some (True, ''2'')"
    by (simp add: eval_defs store_kv_def get_def)
  show ?thesis
    using body under top ex1 ex2 by blast
qed

theorem header_sets_section_witness:
  "process_line ([], Map.empty) ''[s]'' = Some (''s'', Map.empty) \<and>
   lines_of ''a=1\<newline>[s]\<newline>b = 2 ; note\<newline>'' = [''a=1'', ''[s]'', ''b = 2 ; note''] \<and>
   load_get [''f'' \<mapsto> ''a=1\<newline>[s]\<newline>b = 2 ; note\<newline>''] ''f'' Config_default []
     ''s'' ''b'' ''d'' = Some (True, ''2'') \<and>
   load_get [''f'' \<mapsto> ''a=1\<newline>[s]\<newline>b = 2 ; note\<newline>''] ''f'' Config_default []
     [] ''a'' ''d'' = Some (True, ''1'')"
proof -
  define content where "content = ''a=1\<newline>[s]\<newline>b = 2 ; note\<newline>''"
  define fs :: filesystem where "fs = [''f'' \<mapsto> content]"
  have f: "fs ''f'' = Some content" by (simp add: fs_def)
  have ls: "lines_of content = [''a=1'', ''[s]'', ''b = 2 ; note'']"
    by (simp add: content_def eval_defs)
  have kb: "spec_classify ''b = 2 ; note'' = KeyValue ''b'' ''2''"
    and ka: "spec_classify ''a=1'' = KeyValue ''a'' ''1''"
    by (simp_all add: eval_defs)
  have post: "assignments [] [''[s]'', ''b = 2 ; note''] = [(''s'', ''b'', ''2'')]"
    by (simp add: eval_defs)
  have h: "''[s]'' = spec_trim ''[s]''" "''[s]'' \<noteq> []" "hd ''[s]'' = CHR ''[''"
    "last ''[s]'' = CHR '']''" "''s'' = spec_trim (butlast (tl ''[s]''))"
    by (simp_all add: line_defs)
  note under = header_sets_section [OF h, of "[]" Map.empty fs "''f''" content
      "[''a=1'']" "[]" "''b = 2 ; note''" "[]" "''b''" "''2''" Config_default "[]" "''d''"]
  note top = header_sets_section [OF h, of "[]" Map.empty fs "''f''" content
      "[]" "[]" "''a=1''" "[''[s]'', ''b = 2 ; note'']" "''a''" "''1''" Config_default "[]" "''d''"]
  have "process_line ([], Map.empty) ''[s]'' = Some (''s'', Map.empty)"
    using under by simp
  moreover have "\<exists>cfg'. loadFromFile fs ''f'' Config_default [] = Some (True, cfg', []) \<and>
                   get cfg' ''s'' ''b'' ''d'' = ''2''"
    using under f ls kb by simp
  moreover have "\<exists>cfg'. loadFromFile fs ''f'' Config_default [] = Some (True, cfg', []) \<and>
                   get cfg' [] ''a'' ''d'' = ''1''"
    using top f ls ka post by simp
  ultimately show ?thesis
    using ls by (auto simp: load_get_def fs_def content_def)
qed

text \<open>
  C3. When the source cannot be opened, \<open>loadFromFile\<close> returns \<open>false\<close>, sets
  \<open>err\<close> to a message that contains the path, and leaves the map empty: every
  \<open>get\<close> then returns its default, whatever the object held before the call (so also
  after an earlier load that succeeded).
\<close>

theorem load_unopenable:
  assumes "fs path = None"
  shows "\<exists>cfg'. loadFromFile fs path cfg err =
            Some (False, cfg', ''Could not open config file: '' @ path) \<and>
          sublist path (''Could not open config file: '' @ path) \<and>
          data cfg' = Map.empty \<and>
          (\<forall>sec key dflt. get cfg' sec key dflt = dflt)"
proof -
  have "suffix path (''Could not open config file: '' @ path)"
    by (rule suffixI) (rule refl)
  then have "sublist path (''Could not open config file: '' @ path)"
    by (rule suffix_imp_sublist)
  moreover have "loadFromFile fs path cfg err =
      Some (False, cfg\<lparr>data := Map.empty\<rparr>, ''Could not open config file: '' @ path)"
    using assms by (simp add: loadFromFile_spec)
  ultimately show ?thesis by (simp add: get_def)
qed

theorem load_unopenable_witness:
  "load_get [''f'' \<mapsto> ''a=1''] ''f'' Config_default [] [] ''a'' ''d'' = Some (True, ''1'') \<and>
   load_get [''f'' \<mapsto> ''a=1''] ''g'' \<lparr>data = store_kv Map.empty [] ''a'' ''1''\<rparr> [] [] ''a'' ''d''
     = Some (False, ''d'')"
proof -
  have "load_get [''f'' \<mapsto> ''a=1''] ''f'' Config_default [] [] ''a'' ''d'' = Some (True, ''1'')"
    by (simp add: eval_defs store_kv_def get_def)
  moreover have "[''f'' \<mapsto> ''a=1''] ''g'' = None" by simp
  ultimately show ?thesis
    using load_unopenable [of "[''f'' \<mapsto> ''a=1'']" "''g''" "\<lparr>data = store_kv Map.empty [] ''a'' ''1''\<rparr>" "[]"]
    by (auto simp: load_get_def)
qed

text \<open>
  C4, as the code has it. A source that can be opened loads with success whatever it
  holds. A malformed line (not empty, not a comment, not a header, without \<open>=\<close>)
  leaves the current section and the store as they are, and the load gives what the
  file without that line gives. The valid lines of the file are parsed all the same:
  with the malformed lines taken out, the last key/value line that stores a section and
  key is the one \<open>get\<close> reads back. \<open>get\<close> on a fragment of a malformed line
  returns the default unless a key/value line of the file stores that fragment as a key
  of the section asked for. The file \<open>valid=ok\nno equals here\<close> gives
  \<open>get("", "valid") = "ok"\<close> and the default for the whole second line.
\<close>

theorem malformed_lines_skipped:
  "(fs path = Some content \<longrightarrow>
      (\<exists>cfg'. loadFromFile fs path cfg err = Some (True, cfg', err))) \<and>
   (spec_classify bad = Malformed \<longrightarrow>
      process_line st bad = Some st \<and>
      (fs path = Some content \<and> lines_of content = pre @ [bad] @ post \<and>
       lines_of content' = pre @ post \<longrightarrow>
         loadFromFile fs path cfg err = loadFromFile (fs(path \<mapsto> content')) path cfg err)) \<and>
   (fs path = Some content \<and>
    assignments [] (filter (\<lambda>l. spec_classify l \<noteq> Malformed) (lines_of content)) =
      earlier @ [(sec, key, v)] @ later \<and>
    (\<forall>(s, k, v') \<in> set later. \<not> (s = sec \<and> k = key)) \<longrightarrow>
      (\<exists>cfg'. loadFromFile fs path cfg err = Some (True, cfg', err) \<and>
              stored (data cfg') sec key = Some v \<and> get cfg' sec key dflt = v)) \<and>
   (fs path = Some content \<and>
    (\<forall>(s, k, v') \<in> set (assignments [] (lines_of content)). \<not> (s = sec' \<and> k = frag)) \<longrightarrow>
      (\<exists>cfg'. loadFromFile fs path cfg err = Some (True, cfg', err) \<and>
              get cfg' sec' frag dflt = dflt)) \<and>
   load_get [''f'' \<mapsto> ''valid=ok\<newline>no equals here''] ''f'' Config_default []
     [] ''valid'' dflt = Some (True, ''ok'') \<and>
   load_get [''f'' \<mapsto> ''valid=ok\<newline>no equals here''] ''f'' Config_default []
     [] ''no equals here'' dflt = Some (True, dflt)"
proof -
  have skip: "process_line st bad = Some st" if "spec_classify bad = Malformed"
    using that by (simp add: process_line_spec spec_apply_def)
  have same: "loadFromFile fs path cfg err = loadFromFile (fs(path \<mapsto> content')) path cfg err"
    if "spec_classify bad = Malformed" and "fs path = Some content"
      and "lines_of content = pre @ [bad] @ post" and "lines_of content' = pre @ post"
    using that by (simp add: loadFromFile_spec spec_apply_def)
  have hit: "stored (store_all Map.empty (assignments [] (lines_of content))) sec key = Some v"
    if "assignments [] (filter (\<lambda>l. spec_classify l \<noteq> Malformed) (lines_of content)) =
          earlier @ [(sec, key, v)] @ later"
      and "\<forall>(s, k, v') \<in> set later. \<not> (s = sec \<and> k = key)"
  proof -
    have "assignments [] (lines_of content) = earlier @ [(sec, key, v)] @ later"
      using that(1) by (simp only: assignments_without_malformed)
    then show ?thesis
      using stored_store_all_last [OF that(2), of Map.empty earlier v] by simp
  qed
  have miss: "get (cfg\<lparr>data := store_all Map.empty (assignments [] (lines_of content))\<rparr>)
                sec' frag dflt = dflt"
    if "\<forall>(s, k, v') \<in> set (assignments [] (lines_of content)). \<not> (s = sec' \<and> k = frag)"
    using stored_store_all_miss [OF that, of Map.empty] by (simp add: get_stored stored_def)
  have ex1: "load_get [''f'' \<mapsto> ''valid=ok\<newline>no equals here''] ''f'' Config_default []
     [] ''valid'' dflt = Some (True, ''ok'')"
    by (simp add: eval_defs store_kv_def get_def)
  have ex2: "load_get [''f'' \<mapsto> ''valid=ok\<newline>no equals here''] ''f'' Config_default []
     [] ''no equals here'' dflt = Some (True, dflt)"
    by (simp add: eval_defs store_kv_def get_def)
  have readable: "fs path = Some content \<longrightarrow>
      (\<exists>cfg'. loadFromFile fs path cfg err = Some (True, cfg', err))"
    by (simp add: load_readable)
  have readback: "fs path = Some content \<and>
    assignments [] (filter (\<lambda>l. spec_classify l \<noteq> Malformed) (lines_of content)) =
      earlier @ [(sec, key, v)] @ later \<and>
    (\<forall>(s, k, v') \<in> set later. \<not> (s = sec \<and> k = key)) \<longrightarrow>
      (\<exists>cfg'. loadFromFile fs path cfg err = Some (True, cfg', err) \<and>
              stored (data cfg') sec key = Some v \<and> get cfg' sec key dflt = v)"
    using hit by (auto simp: load_readable get_stored)
  have absent: "fs path = Some content \<and>
    (\<forall>(s, k, v') \<in> set (assignments [] (lines_of content)). \<not> (s = sec' \<and> k = frag)) \<longrightarrow>
      (\<exists>cfg'. loadFromFile fs path cfg err = Some (True, cfg', err) \<and>
              get cfg' sec' frag dflt = dflt)"
    using miss by (auto simp: load_readable)
  show ?thesis
    using readable skip same readback absent ex1 ex2 by blast
qed

theorem malformed_lines_skipped_witness:
  "spec_classify ''no equals here'' = Malformed \<and>
   process_line (''s'', Map.empty) ''no equals here'' = Some (''s'', Map.empty) \<and>
   loadFromFile [''f'' \<mapsto> ''valid=ok\<newline>no equals here''] ''f'' Config_default [] =
     loadFromFile [''f'' \<mapsto> ''valid=ok''] ''f'' Config_default [] \<and>
   load_get [''f'' \<mapsto> ''valid=ok\<newline>no equals here''] ''f'' Config_default []
     [] ''valid'' ''d'' = Some (True, ''ok'') \<and>
   load_get [''f'' \<mapsto> ''valid=ok\<newline>no equals here''] ''f'' Config_default []
     [] ''equals'' ''d'' = Some (True, ''d'')"
proof -
  define content where "content = ''valid=ok\<newline>no equals here''"
  define fs :: filesystem where "fs = [''f'' \<mapsto> content]"
  have f: "fs ''f'' = Some content" by (simp add: fs_def)
  have bad: "spec_classify ''no equals here'' = Malformed"
    by (simp add: line_defs)
  have ls: "lines_of content = [''valid=ok''] @ [''no equals here''] @ []"
    and ls': "lines_of ''valid=ok'' = [''valid=ok''] @ []"
    by (simp_all add: content_def eval_defs)
  have asg: "assignments [] (lines_of content) = [([], ''valid'', ''ok'')]"
    by (simp add: content_def eval_defs)
  have kept: "assignments [] (filter (\<lambda>l. spec_classify l \<noteq> Malformed) (lines_of content)) =
                [] @ [([], ''valid'', ''ok'')] @ []"
    by (simp add: content_def eval_defs)
  have none_later: "\<forall>(s, k, v') \<in> set []. \<not> (s = [] \<and> k = ''valid'')"
    by simp
  have unset: "\<forall>(s, k, v') \<in> set (assignments [] (lines_of content)).
                 \<not> (s = [] \<and> k = ''equals'')"
    by (simp add: asg)
  note inst = malformed_lines_skipped [where fs = fs and path = "''f''" and content = content
      and cfg = Config_default and err = "[]" and bad = "''no equals here''"
      and st = "(''s'', Map.empty)" and pre = "[''valid=ok'']" and post = "[]"
      and content' = "''valid=ok''" and earlier = "[]" and sec = "[]" and key = "''valid''"
      and v = "''ok''" and later = "[]" and dflt = "''d''" and sec' = "[]"
      and frag = "''equals''"]
  have "process_line (''s'', Map.empty) ''no equals here'' = Some (''s'', Map.empty)"
    using inst bad by blast
  moreover have "loadFromFile fs ''f'' Config_default [] =
                   loadFromFile (fs(''f'' \<mapsto> ''valid=ok'')) ''f'' Config_default []"
    using inst bad f ls ls' by blast
  moreover have "\<exists>cfg'. loadFromFile fs ''f'' Config_default [] = Some (True, cfg', []) \<and>
                   get cfg' [] ''valid'' ''d'' = ''ok''"
    using inst f kept none_later by blast
  moreover have "\<exists>cfg'. loadFromFile fs ''f'' Config_default [] = Some (True, cfg', []) \<and>
                   get cfg' [] ''equals'' ''d'' = ''d''"
    using inst f unset by blast
  ultimately show ?thesis
    using bad by (auto simp: load_get_def fs_def content_def)
qed

text \<open>
  C4 as it was stated says that \<open>get\<close> on any fragment of a malformed line returns
  the default. In the file \<open>valid=ok\nvalid or not\<close> the second line is malformed,
  \<open>valid\<close> is a fragment of it, and \<open>get("", "valid", "dflt")\<close> returns \<open>ok\<close>,
  the value the first line stored.
\<close>

theorem malformed_fragment_counterexample:
  "lines_of ''valid=ok\<newline>valid or not'' = [''valid=ok'', ''valid or not''] \<and>
   spec_classify ''valid or not'' = Malformed \<and>
   sublist ''valid'' ''valid or not'' \<and>
   load_get [''f'' \<mapsto> ''valid=ok\<newline>valid or not''] ''f'' Config_default []
     [] ''valid'' ''dflt'' = Some (True, ''ok'') \<and>
   ''ok'' \<noteq> ''dflt''"
proof -
  have "prefix ''valid'' (''valid'' @ '' or not'')" by (rule prefixI) (rule refl)
  then have "sublist ''valid'' ''valid or not''"
    using prefix_imp_sublist by fastforce
  moreover have "load_get [''f'' \<mapsto> ''valid=ok\<newline>valid or not''] ''f'' Config_default []
     [] ''valid'' ''dflt'' = Some (True, ''ok'')"
    by (simp add: eval_defs store_kv_def get_def)
  ultimately show ?thesis by (simp add: eval_defs)
qed

text \<open>
  C5. When a file stores the same section and key on several key/value lines, the value
  of the last of them is the one in the map after the load (\<open>pre\<close> may hold earlier
  stores of the pair, \<open>post\<close> holds none). The map is a function of section and key,
  so the pair has this one value and no other.
\<close>

theorem last_assignment_wins:
  assumes "fs path = Some content"
    and "assignments [] (lines_of content) = pre @ [(sec, key, v)] @ post"
    and "\<forall>(s, k, v') \<in> set post. \<not> (s = sec \<and> k = key)"
  shows "\<exists>cfg'. loadFromFile fs path cfg err = Some (True, cfg', err) \<and>
           stored (data cfg') sec key = Some v \<and>
           get cfg' sec key dflt = v"
proof -
  have "stored (store_all Map.empty (assignments [] (lines_of content))) sec key = Some v"
    unfolding assms(2) using assms(3) by (rule stored_store_all_last)
  then show ?thesis
    using assms(1) load_readable [of fs path content cfg err] by (simp add: get_stored)
qed

theorem last_assignment_wins_witness:
  "assignments [] (lines_of ''k=1\<newline>[s]\<newline>k=3\<newline>[]\<newline>k=2'') =
     [([], ''k'', ''1'')] @ [(''s'', ''k'', ''3''), ([], ''k'', ''2'')] \<and>
   load_get [''f'' \<mapsto> ''k=1\<newline>[s]\<newline>k=3\<newline>[]\<newline>k=2''] ''f'' Config_default [] [] ''k'' ''d''
     = Some (True, ''2'')"
proof -
  define content where "content = ''k=1\<newline>[s]\<newline>k=3\<newline>[]\<newline>k=2''"
  have a: "assignments [] (lines_of content) =
             ([([], ''k'', ''1''), (''s'', ''k'', ''3'')]) @ [([], ''k'', ''2'')] @ []"
    by (simp add: content_def eval_defs)
  have f: "[''f'' \<mapsto> content] ''f'' = Some content" by simp
  have m: "\<forall>(s, k, v') \<in> set []. \<not> (s = [] \<and> k = ''k'')" by simp
  from last_assignment_wins [of "[''f'' \<mapsto> content]" "''f''" content
      "[([], ''k'', ''1''), (''s'', ''k'', ''3'')]" "[]" "''k''" "''2''" "[]" Config_default "[]" "''d''",
      OF f a m]
  have "load_get [''f'' \<mapsto> content] ''f'' Config_default [] [] ''k'' ''d'' = Some (True, ''2'')"
    by (auto simp: load_get_def)
  then show ?thesis using a by (simp add: content_def)
qed

text \<open>
  C6. After a load of A, a load of B gives a result that depends on B alone: the same
  flag and the same object as a load of B from any other object. A section and key that
  no key/value line of B stores (none at all when B cannot be opened) gets the default,
  whatever A had stored for it.
\<close>

theorem load_replaces:
  assumes "loadFromFile fsA pathA cfg0 err0 = Some (okA, cfgA, errA)"
  shows "\<exists>okB cfgB errB.
           loadFromFile fsB pathB cfgA errA = Some (okB, cfgB, errB) \<and>
           (\<forall>cfg' err'. \<exists>errB'. loadFromFile fsB pathB cfg' err' = Some (okB, cfgB, errB')) \<and>
           (\<forall>sec key dflt.
              (case fsB pathB of
                 None \<Rightarrow> True
               | Some content \<Rightarrow>
                   \<forall>(s, k, v) \<in> set (assignments [] (lines_of content)). \<not> (s = sec \<and> k = key))
              \<longrightarrow> get cfgB sec key dflt = dflt)"
proof (cases "fsB pathB")
  case None
  then show ?thesis by (auto simp: loadFromFile_spec get_def)
next
  case (Some content)
  have "get (cfgA\<lparr>data := store_all Map.empty (assignments [] (lines_of content))\<rparr>) sec key dflt = dflt"
    if "\<forall>(s, k, v) \<in> set (assignments [] (lines_of content)). \<not> (s = sec \<and> k = key)"
    for sec key dflt
    using stored_store_all_miss [OF that, of Map.empty]
    by (simp add: get_stored stored_def)
  then show ?thesis
    using Some by (auto simp: load_readable)
qed

theorem load_replaces_witness:
  "load_get [''a'' \<mapsto> ''x=1\<newline>y=2'', ''b'' \<mapsto> ''y=3''] ''a'' Config_default [] [] ''x'' ''d''
     = Some (True, ''1'') \<and>
   load_get [''a'' \<mapsto> ''x=1\<newline>y=2'', ''b'' \<mapsto> ''y=3''] ''b''
     \<lparr>data = store_kv (store_kv Map.empty [] ''x'' ''1'') [] ''y'' ''2''\<rparr> [] [] ''x'' ''d''
     = Some (True, ''d'')"
proof -
  define fs :: filesystem where "fs = [''a'' \<mapsto> ''x=1\<newline>y=2'', ''b'' \<mapsto> ''y=3'']"
  define cfgA :: Config where
    "cfgA = \<lparr>data = store_kv (store_kv Map.empty [] ''x'' ''1'') [] ''y'' ''2''\<rparr>"
  have la: "loadFromFile fs ''a'' Config_default [] = Some (True, cfgA, [])"
    by (simp add: fs_def cfgA_def eval_defs)
  have ga: "load_get fs ''a'' Config_default [] [] ''x'' ''d'' = Some (True, ''1'')"
    by (simp add: load_get_def la) (simp add: cfgA_def get_def store_kv_def)
  have b: "fs ''b'' = Some ''y=3''" by (simp add: fs_def)
  have ab: "assignments [] (lines_of ''y=3'') = [([], ''y'', ''3'')]"
    by (simp add: eval_defs)
  from load_replaces [OF la, of fs "''b''"]
  obtain okB cfgB errB where
    lb: "loadFromFile fs ''b'' cfgA [] = Some (okB, cfgB, errB)" and
    gone: "(case fs ''b'' of None \<Rightarrow> True
            | Some content \<Rightarrow>
                \<forall>(s, k, v) \<in> set (assignments [] (lines_of content)). \<not> (s = [] \<and> k = ''x''))
           \<longrightarrow> get cfgB [] ''x'' ''d'' = ''d''"
    by blast
  have "okB" using lb b by (simp add: loadFromFile_spec)
  moreover have "get cfgB [] ''x'' ''d'' = ''d''"
    using gone by (simp add: b ab)
  ultimately have "load_get fs ''b'' cfgA [] [] ''x'' ''d'' = Some (True, ''d'')"
    using lb by (simp add: load_get_def)
  then show ?thesis using ga by (simp add: fs_def cfgA_def)
qed

text \<open>
  C7. Loading the same readable source twice in a row gives an object on which every
  \<open>get\<close> returns what it returns after loading it once; both loads succeed.
\<close>

theorem load_twice:
  assumes "fs path = Some content"
  shows "\<exists>cfg1 cfg2.
           loadFromFile fs path cfg err = Some (True, cfg1, err) \<and>
           loadFromFile fs path cfg1 err = Some (True, cfg2, err) \<and>
           (\<forall>sec key dflt. get cfg2 sec key dflt = get cfg1 sec key dflt)"
  using assms by (simp add: loadFromFile_spec)

theorem load_twice_witness:
  "load_get [''f'' \<mapsto> ''a=1''] ''f'' Config_default [] [] ''a'' ''d'' = Some (True, ''1'') \<and>
   load_get [''f'' \<mapsto> ''a=1''] ''f'' \<lparr>data = store_kv Map.empty [] ''a'' ''1''\<rparr> []
     [] ''a'' ''d'' = Some (True, ''1'')"
proof -
  have "[''f'' \<mapsto> ''a=1''] ''f'' = Some ''a=1''" by simp
  from load_twice [of "[''f'' \<mapsto> ''a=1'']" "''f''" "''a=1''" Config_default "[]", OF this]
  obtain cfg1 cfg2 where
    l1: "loadFromFile [''f'' \<mapsto> ''a=1''] ''f'' Config_default [] = Some (True, cfg1, [])" and
    l2: "loadFromFile [''f'' \<mapsto> ''a=1''] ''f'' cfg1 [] = Some (True, cfg2, [])" and
    same: "get cfg2 [] ''a'' ''d'' = get cfg1 [] ''a'' ''d''"
    by blast
  have c1: "cfg1 = \<lparr>data = store_kv Map.empty [] ''a'' ''1''\<rparr>"
    using l1 by (simp add: eval_defs)
  have g1: "get cfg1 [] ''a'' ''d'' = ''1''"
    by (simp add: c1 get_def store_kv_def)
  show ?thesis
    using l1 l2 same g1 by (simp add: load_get_def c1)
qed

text \<open>
  C8. \<open>get\<close> returns the value stored for exactly the given section and key when
  there is one, and the default otherwise. It compares its arguments as they are: after
  a store under \<open>(s, k)\<close> a lookup of \<open>(s', k')\<close> sees the new value only when
  \<open>s' = s\<close> and \<open>k' = k\<close>. The method is \<open>const\<close> and reads the map with
  \<open>find\<close>, so it is a total function of the object and returns no new object.
\<close>

theorem get_exact_lookup:
  "(data cfg sec = Some b \<and> b key = Some v \<longrightarrow> get cfg sec key dflt = v) \<and>
   ((\<forall>b. data cfg sec = Some b \<longrightarrow> b key = None) \<longrightarrow> get cfg sec key dflt = dflt) \<and>
   get (cfg\<lparr>data := store_kv (data cfg) s k v\<rparr>) s' k' dflt =
     (if s' = s \<and> k' = k then v else get cfg s' k' dflt)"
proof -
  have "get (cfg\<lparr>data := store_kv (data cfg) s k v\<rparr>) s' k' dflt =
          (if s' = s \<and> k' = k then v else get (cfg\<lparr>data := data cfg\<rparr>) s' k' dflt)"
    by (rule get_store_kv)
  then show ?thesis by (auto simp: get_def split: option.splits)
qed

theorem get_exact_lookup_witness:
  "get \<lparr>data = [''s'' \<mapsto> [''a'' \<mapsto> ''1'']]\<rparr> ''s'' ''a'' ''d'' = ''1'' \<and>
   get \<lparr>data = [''s'' \<mapsto> [''a'' \<mapsto> ''1'']]\<rparr> ''s'' '' a'' ''d'' = ''d'' \<and>
   get \<lparr>data = [''s'' \<mapsto> [''a'' \<mapsto> ''1'']]\<rparr> ''S'' ''a'' ''d'' = ''d'' \<and>
   get \<lparr>data = store_kv [''s'' \<mapsto> [''a'' \<mapsto> ''1'']] ''s'' ''a'' ''2''\<rparr> ''s'' ''a'' ''d'' = ''2''"
proof -
  define cfg :: Config where "cfg = \<lparr>data = [''s'' \<mapsto> [''a'' \<mapsto> ''1'']]\<rparr>"
  note hit = get_exact_lookup [where cfg = cfg and sec = "''s''" and key = "''a''"
      and b = "[''a'' \<mapsto> ''1'']" and v = "''1''" and dflt = "''d''"]
  note miss_key = get_exact_lookup [where cfg = cfg and sec = "''s''" and key = "'' a''"
      and dflt = "''d''"]
  note miss_section = get_exact_lookup [where cfg = cfg and sec = "''S''" and key = "''a''"
      and dflt = "''d''"]
  note overwrite = get_exact_lookup [where cfg = cfg and v = "''2''" and dflt = "''d''"
      and s = "''s''" and k = "''a''" and s' = "''s''" and k' = "''a''"]
  show ?thesis
    using hit miss_key miss_section overwrite by (simp add: cfg_def)
qed

text \<open>
  C9. A line whose trimmed form starts with \<open>=\<close> is a key/value line with the
  empty key: its value (the trimmed rest, cut at the earliest \<open>;\<close> or \<open>#\<close>) is
  stored under the key \<open>""\<close> of the current section, and \<open>get(section, "")\<close>
  returns it. The line is not malformed.
\<close>

theorem empty_key_line:
  assumes "spec_trim line = CHR ''='' # rest"
  shows "spec_classify line = KeyValue [] (spec_value (CHR ''='' # rest)) \<and>
         process_line (cur, d) line =
           Some (cur, store_kv d cur [] (spec_value (CHR ''='' # rest))) \<and>
         get (cfg\<lparr>data := store_kv d cur [] (spec_value (CHR ''='' # rest))\<rparr>) cur [] dflt
           = spec_value (CHR ''='' # rest)"
proof -
  have "spec_key (CHR ''='' # rest) = []"
    by (simp add: spec_key_def spec_trim_def)
  then have "spec_classify line = KeyValue [] (spec_value (CHR ''='' # rest))"
    using assms by (simp add: spec_classify_def)
  then show ?thesis
    by (simp add: process_line_spec spec_apply_def get_store_kv)
qed

theorem empty_key_line_witness:
  "spec_trim ''  = v'' = ''= v'' \<and>
   process_line (''s'', Map.empty) ''  = v'' = Some (''s'', store_kv Map.empty ''s'' [] ''v'') \<and>
   get \<lparr>data = store_kv Map.empty ''s'' [] ''v''\<rparr> ''s'' [] ''d'' = ''v'' \<and>
   load_get [''f'' \<mapsto> ''=v''] ''f'' Config_default [] [] [] ''d'' = Some (True, ''v'')"
proof -
  have "load_get [''f'' \<mapsto> ''=v''] ''f'' Config_default [] [] [] ''d'' = Some (True, ''v'')"
    by (simp add: eval_defs store_kv_def get_def)
  then show ?thesis
    using empty_key_line [of "''  = v''" "'' v''" "''s''" Map.empty Config_default "''d''"]
    by (simp add: eval_defs)
qed

text \<open>
  C10. Comments are stripped from the values of key/value lines only. A line whose
  trimmed form starts with \<open>[\<close>, does not end with \<open>]\<close> and has no \<open>=\<close>
  (such as \<open>[s] ; comment\<close>) is skipped: the current section and the store stay as
  they were, and no section is introduced. A line that does end with \<open>]\<close> names the
  section by all the text between the brackets, trimmed, comment characters included.
\<close>

theorem unclosed_header_skipped:
  assumes "s = spec_trim line" and "s \<noteq> []" and "hd s = CHR ''[''"
  shows "(last s \<noteq> CHR '']'' \<and> CHR ''='' \<notin> set s \<longrightarrow>
            spec_classify line = Malformed \<and> process_line (cur, d) line = Some (cur, d)) \<and>
         (last s = CHR '']'' \<longrightarrow>
            process_line (cur, d) line = Some (spec_trim (butlast (tl s)), d))"
proof -
  have "spec_classify line = Malformed" if "last s \<noteq> CHR '']''" and "CHR ''='' \<notin> set s"
    using assms that by (simp add: spec_classify_def)
  moreover have "spec_classify line = Header (spec_trim (butlast (tl s)))" if "last s = CHR '']''"
    using assms that by (simp add: spec_classify_def)
  ultimately show ?thesis by (simp add: process_line_spec spec_apply_def)
qed

theorem unclosed_header_skipped_witness:
  "spec_trim ''[s] ; comment'' = ''[s] ; comment'' \<and>
   process_line ([], Map.empty) ''[s] ; comment'' = Some ([], Map.empty) \<and>
   process_line ([], Map.empty) ''[a;b]'' = Some (''a;b'', Map.empty) \<and>
   load_get [''f'' \<mapsto> ''[s] ; comment\<newline>k=v''] ''f'' Config_default [] [] ''k'' ''d''
     = Some (True, ''v'') \<and>
   load_get [''f'' \<mapsto> ''[s] ; comment\<newline>k=v''] ''f'' Config_default [] ''s'' ''k'' ''d''
     = Some (True, ''d'')"
proof -
  have "load_get [''f'' \<mapsto> ''[s] ; comment\<newline>k=v''] ''f'' Config_default [] [] ''k'' ''d''
     = Some (True, ''v'')"
    by (simp add: eval_defs store_kv_def get_def)
  moreover have "load_get [''f'' \<mapsto> ''[s] ; comment\<newline>k=v''] ''f'' Config_default [] ''s'' ''k'' ''d''
     = Some (True, ''d'')"
    by (simp add: eval_defs store_kv_def get_def)
  ultimately show ?thesis
    using unclosed_header_skipped [of "''[s] ; comment''" "''[s] ; comment''" "[]" Map.empty]
          unclosed_header_skipped [of "''[a;b]''" "''[a;b]''" "[]" Map.empty]
    by (simp add: eval_defs)
qed

end
